theory Spec2Isabelle
  imports Main
begin

section \<open>The priority queue of queue.go\<close>

text \<open>
  A sequential model of \<^verbatim>\<open>queue.go\<close>. Every method of the source takes the
  mutex for its whole body, so a method is one atomic step on the queue state; the
  mutex itself is not part of the state. A method is a function from the state to
  its return value and the state afterwards.
\<close>

subsection \<open>The signal channel\<close>

text \<open>
  \<^verbatim>\<open>chan struct{}\<close>: the elements carry no data, so a buffered channel is its
  capacity (\<^verbatim>\<open>cap(ch)\<close>) and the number of buffered elements (\<^verbatim>\<open>len(ch)\<close>).
  The channel is never closed.
\<close>

record chan =
  chan_cap :: nat
  chan_len :: nat

text \<open>\<^verbatim>\<open>make(chan struct{}, n)\<close>\<close>

definition make_chan :: "nat \<Rightarrow> chan" where
  "make_chan n = \<lparr>chan_cap = n, chan_len = 0\<rparr>"

text \<open>
  \<^verbatim>\<open>select { case ch <- struct{}{}: default: }\<close>: the send happens when the
  buffer has room, otherwise the default branch is taken.
\<close>

definition try_send :: "chan \<Rightarrow> chan" where
  "try_send c = (if chan_len c < chan_cap c then c\<lparr>chan_len := chan_len c + 1\<rparr> else c)"

text \<open>
  \<^verbatim>\<open>select { case _, ok = <-ch: default: }\<close>: an element is taken when one is
  buffered (\<open>ok\<close> is true, the channel being open), otherwise the default branch
  is taken and \<open>ok\<close> keeps its initial value false.
\<close>

definition try_recv :: "chan \<Rightarrow> bool \<times> chan" where
  "try_recv c = (if 0 < chan_len c then (True, c\<lparr>chan_len := chan_len c - 1\<rparr>) else (False, c))"

subsection \<open>The queue\<close>

text \<open>A value of type \<^verbatim>\<open>any\<close>: \<open>None\<close> is \<^verbatim>\<open>nil\<close>.\<close>

type_synonym 'a any = "'a option"

text \<open>\<^verbatim>\<open>type QueuePriority int\<close>; only equality with the constants is used.\<close>

type_synonym QueuePriority = int

definition PriorityLow :: QueuePriority where "PriorityLow = 0"
definition PriorityNormal :: QueuePriority where "PriorityNormal = 1"
definition PriorityHigh :: QueuePriority where "PriorityHigh = 2"
definition PriorityCritical :: QueuePriority where "PriorityCritical = 3"

record 'a queue =
  signal :: chan
  low :: "'a any list"
  norm :: "'a any list"
  high :: "'a any list"
  crit :: "'a any list"

definition NewQueue :: "'a queue" where
  "NewQueue = \<lparr>signal = make_chan 1, low = [], norm = [], high = [], crit = []\<rparr>"

text \<open>The switch has no default case: any other priority stores nothing.\<close>

definition append_q :: "'a any \<Rightarrow> QueuePriority \<Rightarrow> 'a queue \<Rightarrow> 'a queue" where
  "append_q data priority q =
     (let q1 = (if priority = PriorityLow then q\<lparr>low := low q @ [data]\<rparr>
                else if priority = PriorityNormal then q\<lparr>norm := norm q @ [data]\<rparr>
                else if priority = PriorityHigh then q\<lparr>high := high q @ [data]\<rparr>
                else if priority = PriorityCritical then q\<lparr>crit := crit q @ [data]\<rparr>
                else q)
      in q1\<lparr>signal := try_send (signal q1)\<rparr>)"

definition Append :: "'a any \<Rightarrow> 'a queue \<Rightarrow> 'a queue" where
  "Append data q = append_q data PriorityNormal q"

definition AppendPriority :: "'a any \<Rightarrow> QueuePriority \<Rightarrow> 'a queue \<Rightarrow> 'a queue" where
  "AppendPriority data priority q = append_q data priority q"

definition lenWithoutLock :: "'a queue \<Rightarrow> nat" where
  "lenWithoutLock q =
     (let qlen = length (low q);
          qlen = qlen + length (norm q);
          qlen = qlen + length (high q);
          qlen = qlen + length (crit q)
      in qlen)"

definition prepSignal :: "'a queue \<Rightarrow> 'a queue" where
  "prepSignal q =
     (let (send, c) = try_recv (signal q);
          q1 = q\<lparr>signal := c\<rparr>;
          send = (if \<not> send \<and> 0 < lenWithoutLock q1 then True else send)
      in if send then q1\<lparr>signal := try_send (signal q1)\<rparr> else q1)"

text \<open>The loop of \<^verbatim>\<open>drain\<close> receives until the default branch is taken.\<close>

function drain :: "'a queue \<Rightarrow> 'a queue" where
  "drain q =
     (let (received, c) = try_recv (signal q)
      in if received then drain (q\<lparr>signal := c\<rparr>) else q)"
  by pat_completeness auto
termination
  by (relation "measure (\<lambda>q. chan_len (signal q))")
     (auto simp: try_recv_def split: if_splits)

declare drain.simps [simp del]

definition Signal :: "'a queue \<Rightarrow> chan \<times> 'a queue" where
  "Signal q = (let q1 = prepSignal q in (signal q1, q1))"

definition Next :: "'a queue \<Rightarrow> 'a any \<times> bool \<times> 'a queue" where
  "Next q =
     (if 0 < length (crit q) then
        (let data = crit q ! 0; q1 = q\<lparr>crit := drop 1 (crit q)\<rparr>
         in (data, True, prepSignal q1))
      else if 0 < length (high q) then
        (let data = high q ! 0; q1 = q\<lparr>high := drop 1 (high q)\<rparr>
         in (data, True, prepSignal q1))
      else if 0 < length (norm q) then
        (let data = norm q ! 0; q1 = q\<lparr>norm := drop 1 (norm q)\<rparr>
         in (data, True, prepSignal q1))
      else if 0 < length (low q) then
        (let data = low q ! 0; q1 = q\<lparr>low := drop 1 (low q)\<rparr>
         in (data, True, prepSignal q1))
      else (None, False, drain q))"

definition Peek :: "'a queue \<Rightarrow> 'a any \<times> bool \<times> 'a queue" where
  "Peek q =
     (if 0 < length (crit q) then (crit q ! 0, True, q)
      else if 0 < length (high q) then (high q ! 0, True, q)
      else if 0 < length (norm q) then (norm q ! 0, True, q)
      else if 0 < length (low q) then (low q ! 0, True, q)
      else (None, False, q))"

definition Len :: "'a queue \<Rightarrow> nat \<times> 'a queue" where
  "Len q = (lenWithoutLock q, q)"

definition Empty :: "'a queue \<Rightarrow> bool \<times> 'a queue" where
  "Empty q = (let (n, q1) = Len q in (n = 0, q1))"

text \<open>
  \<^verbatim>\<open>Process\<close>: the callback is a function on a state \<open>'s\<close> of its own (it does
  not touch the queue). \<open>Process_loop\<close> is the \<^verbatim>\<open>for ok { ... }\<close> loop, entered
  with the result of the first \<^verbatim>\<open>Next\<close>. Each successful \<^verbatim>\<open>Next\<close> removes an item,
  so the loop ends.
\<close>

function Process_loop ::
  "('a any \<Rightarrow> 's \<Rightarrow> 's) \<Rightarrow> 'a any \<Rightarrow> bool \<Rightarrow> 'a queue \<Rightarrow> 's \<Rightarrow> 'a queue \<times> 's" where
  "Process_loop callback element ok q s =
     (if ok then
        (let s1 = callback element s;
             (element1, ok1, q1) = Next q
         in Process_loop callback element1 ok1 q1 s1)
      else (q, s))"
  by pat_completeness auto
termination
proof -
  have sig: "lenWithoutLock (q\<lparr>signal := c\<rparr>) = lenWithoutLock q" for q :: "'a queue" and c
    by (simp add: lenWithoutLock_def)
  have prep: "lenWithoutLock (prepSignal q) = lenWithoutLock q" for q :: "'a queue"
    by (simp add: prepSignal_def Let_def sig split: prod.splits)
  have dr: "lenWithoutLock (drain q) = lenWithoutLock q" for q :: "'a queue"
  proof (induction q rule: drain.induct)
    case (1 q)
    show ?case
    proof (cases "fst (try_recv (signal q))")
      case True
      with 1 show ?thesis
        by (subst drain.simps) (auto simp: sig split: prod.splits)
    next
      case False
      then show ?thesis
        by (subst drain.simps) (auto split: prod.splits)
    qed
  qed
  have upd:
    "lenWithoutLock (q\<lparr>crit := xs\<rparr>) =
       length (low q) + length (norm q) + length (high q) + length xs"
    "lenWithoutLock (q\<lparr>high := xs\<rparr>) =
       length (low q) + length (norm q) + length xs + length (crit q)"
    "lenWithoutLock (q\<lparr>norm := xs\<rparr>) =
       length (low q) + length xs + length (high q) + length (crit q)"
    "lenWithoutLock (q\<lparr>low := xs\<rparr>) =
       length xs + length (norm q) + length (high q) + length (crit q)"
    for q :: "'a queue" and xs
    by (simp_all add: lenWithoutLock_def)
  have step: "lenWithoutLock q = lenWithoutLock q1 + (if ok then 1 else 0)"
    if "(element, ok, q1) = Next q" for q q1 :: "'a queue" and element ok
    using that
    by (auto simp: Next_def Let_def prep dr upd split: if_splits)
       (simp_all add: lenWithoutLock_def)
  show ?thesis
    by (relation "measure (\<lambda>(callback, element, ok, q, s).
                    lenWithoutLock q + (if ok then 1 else 0))")
       (auto dest!: step)
qed

declare Process_loop.simps [simp del]

definition Process :: "('a any \<Rightarrow> 's \<Rightarrow> 's) \<Rightarrow> 'a queue \<Rightarrow> 's \<Rightarrow> 'a queue \<times> 's" where
  "Process callback q s =
     (let (element, ok, q1) = Next q in Process_loop callback element ok q1 s)"

subsection \<open>Callers\<close>

text \<open>A callback that records the elements it is called with, in order.\<close>

definition record_call :: "'a any \<Rightarrow> 'a any list \<Rightarrow> 'a any list" where
  "record_call element calls = calls @ [element]"

text \<open>\<open>n\<close> calls of \<^verbatim>\<open>Next\<close> in a row, with the pair each one returns.\<close>

fun Next_repeat :: "nat \<Rightarrow> 'a queue \<Rightarrow> ('a any \<times> bool) list \<times> 'a queue" where
  "Next_repeat 0 q = ([], q)"
| "Next_repeat (Suc n) q =
     (let (data, found, q1) = Next q;
          (rs, q2) = Next_repeat n q1
      in ((data, found) # rs, q2))"



text \<open>The items of a queue in the order the levels are scanned.\<close>

definition dequeue_order :: "'a queue \<Rightarrow> 'a any list" where
  "dequeue_order q = crit q @ high q @ norm q @ low q"

text \<open>
  A single-threaded driver: the calls of the interface, and \<open>OpReceive\<close> for a
  consumer that takes a pending token from the channel that \<^verbatim>\<open>Signal\<close> returned
  (without blocking when there is none). \<^verbatim>\<open>Process\<close> runs with the recording callback.
\<close>

datatype 'a op =
    OpAppend "'a any"
  | OpAppendPriority "'a any" QueuePriority
  | OpSignal
  | OpNext
  | OpPeek
  | OpProcess
  | OpEmpty
  | OpLen
  | OpReceive

datatype 'a ret =
    RetUnit
  | RetSignal chan
  | RetNext "'a any" bool
  | RetPeek "'a any" bool
  | RetProcess "'a any list"
  | RetEmpty bool
  | RetLen nat
  | RetReceive bool

fun exec :: "'a op \<Rightarrow> 'a queue \<Rightarrow> 'a ret \<times> 'a queue" where
  "exec (OpAppend data) q = (RetUnit, Append data q)"
| "exec (OpAppendPriority data priority) q = (RetUnit, AppendPriority data priority q)"
| "exec OpSignal q = (let (c, q1) = Signal q in (RetSignal c, q1))"
| "exec OpNext q = (let (data, found, q1) = Next q in (RetNext data found, q1))"
| "exec OpPeek q = (let (data, found, q1) = Peek q in (RetPeek data found, q1))"
| "exec OpProcess q = (let (q1, calls) = Process record_call q [] in (RetProcess calls, q1))"
| "exec OpEmpty q = (let (b, q1) = Empty q in (RetEmpty b, q1))"
| "exec OpLen q = (let (n, q1) = Len q in (RetLen n, q1))"
| "exec OpReceive q = (let (ok, c) = try_recv (signal q) in (RetReceive ok, q\<lparr>signal := c\<rparr>))"

fun run :: "'a op list \<Rightarrow> 'a queue \<Rightarrow> 'a ret list \<times> 'a queue" where
  "run [] q = ([], q)"
| "run (x # xs) q =
     (let (r, q1) = exec x q;
          (rs, q2) = run xs q1
      in (r # rs, q2))"

text \<open>
  Counting over a run: the append calls, the append calls whose priority is one of
  the four constants, and the calls of \<^verbatim>\<open>Next\<close> that returned true. \<^verbatim>\<open>Process\<close>
  calls the callback once after each \<^verbatim>\<open>Next\<close> of its own that returned true, so
  a \<^verbatim>\<open>Process\<close> counts for as many as it made calls.
\<close>

fun is_append :: "'a op \<Rightarrow> bool" where
  "is_append (OpAppend data) = True"
| "is_append (OpAppendPriority data priority) = True"
| "is_append _ = False"

definition defined_priority :: "QueuePriority \<Rightarrow> bool" where
  "defined_priority p =
     (p = PriorityLow \<or> p = PriorityNormal \<or> p = PriorityHigh \<or> p = PriorityCritical)"

fun is_stored_append :: "'a op \<Rightarrow> bool" where
  "is_stored_append (OpAppend data) = True"
| "is_stored_append (OpAppendPriority data priority) = defined_priority priority"
| "is_stored_append _ = False"

fun found_nexts :: "'a ret \<Rightarrow> nat" where
  "found_nexts (RetNext data found) = (if found then 1 else 0)"
| "found_nexts (RetProcess calls) = length calls"
| "found_nexts _ = 0"

text \<open>
  The channel of a queue made by \<^verbatim>\<open>NewQueue\<close> has capacity 1, and a Go channel
  never buffers more than its capacity.
\<close>

definition signal_ok :: "'a queue \<Rightarrow> bool" where
  "signal_ok q = (chan_cap (signal q) = 1 \<and> chan_len (signal q) \<le> chan_cap (signal q))"

section \<open>Facts about the operations\<close>

subsection \<open>The channel and the helpers\<close>

lemma try_send_cap [simp]: "chan_cap (try_send c) = chan_cap c"
  by (simp add: try_send_def)

lemma try_recv_cap [simp]: "chan_cap (snd (try_recv c)) = chan_cap c"
  by (simp add: try_recv_def)

lemma try_send_len_le: "chan_len c \<le> chan_cap c \<Longrightarrow> chan_len (try_send c) \<le> chan_cap c"
  by (simp add: try_send_def)

lemma try_recv_len_le: "chan_len (snd (try_recv c)) \<le> chan_len c"
  by (simp add: try_recv_def)

lemma prepSignal_frame [simp]:
  "low (prepSignal q) = low q" "norm (prepSignal q) = norm q"
  "high (prepSignal q) = high q" "crit (prepSignal q) = crit q"
  by (simp_all add: prepSignal_def Let_def split: prod.splits)

lemma drain_eq: "drain q = q\<lparr>signal := (signal q)\<lparr>chan_len := 0\<rparr>\<rparr>"
proof (induction q rule: drain.induct)
  case (1 q)
  show ?case
  proof (cases "0 < chan_len (signal q)")
    case True
    then have "drain q = drain (q\<lparr>signal := (signal q)\<lparr>chan_len := chan_len (signal q) - 1\<rparr>\<rparr>)"
      by (subst drain.simps) (simp add: try_recv_def)
    also have "\<dots> = q\<lparr>signal := (signal q)\<lparr>chan_len := 0\<rparr>\<rparr>"
      using True by (subst "1.IH"[of "(True, (signal q)\<lparr>chan_len := chan_len (signal q) - 1\<rparr>)"]) 
        (simp_all add: try_recv_def)
    finally show ?thesis .
  next
    case False
    then show ?thesis
      by (subst drain.simps) (simp add: try_recv_def)
  qed
qed

lemma lenWithoutLock_dequeue_order: "lenWithoutLock q = length (dequeue_order q)"
  by (simp add: lenWithoutLock_def dequeue_order_def)

lemma dequeue_order_prepSignal [simp]: "dequeue_order (prepSignal q) = dequeue_order q"
  by (simp add: dequeue_order_def)

lemma dequeue_order_drain [simp]: "dequeue_order (drain q) = dequeue_order q"
  by (simp add: dequeue_order_def drain_eq)

lemma Next_Nil: "dequeue_order q = [] \<Longrightarrow> Next q = (None, False, drain q)"
  by (simp add: dequeue_order_def Next_def)

lemma Next_Cons:
  assumes "dequeue_order q = x # xs"
  shows "fst (Next q) = x" "fst (snd (Next q))" "dequeue_order (snd (snd (Next q))) = xs"
  using assms
  by (auto simp: Next_def Let_def dequeue_order_def neq_Nil_conv drop_Suc nth_Cons' append_eq_Cons_conv)

subsection \<open>Repeated \<^verbatim>\<open>Next\<close> and \<^verbatim>\<open>Process\<close>\<close>

lemma Next_repeat_results:
  "fst (Next_repeat n q) =
     map (\<lambda>d. (d, True)) (take n (dequeue_order q)) @
     replicate (n - length (dequeue_order q)) (None, False)"
proof (induction n arbitrary: q)
  case 0
  show ?case by simp
next
  case (Suc n)
  show ?case
  proof (cases "dequeue_order q")
    case Nil
    then show ?thesis
      using Suc.IH [of "drain q"]
      by (auto simp: Next_Nil split: prod.splits)
  next
    case (Cons x xs)
    from Next_Cons [OF this] show ?thesis
      using Suc.IH [of "snd (snd (Next q))"] Cons
      by (auto split: prod.splits)
  qed
qed

lemma Next_repeat_dequeue_order:
  "dequeue_order (snd (Next_repeat n q)) = drop n (dequeue_order q)"
proof (induction n arbitrary: q)
  case 0
  show ?case by simp
next
  case (Suc n)
  show ?case
  proof (cases "dequeue_order q")
    case Nil
    then show ?thesis
      using Suc.IH [of "drain q"]
      by (auto simp: Next_Nil split: prod.splits)
  next
    case (Cons x xs)
    from Next_Cons [OF this] show ?thesis
      using Suc.IH [of "snd (snd (Next q))"] Cons
      by (auto split: prod.splits)
  qed
qed

lemma Process_loop_calls:
  "snd (Process_loop callback element ok q s) =
     (if ok then fold callback (element # dequeue_order q) s else s)"
proof (induction callback element ok q s rule: Process_loop.induct)
  case (1 callback element ok q s)
  show ?case
  proof (cases ok)
    case False
    then show ?thesis by (subst Process_loop.simps) simp
  next
    case True
    show ?thesis
    proof (cases "dequeue_order q")
      case Nil
      with True show ?thesis
        by (subst Process_loop.simps, simp add: Next_Nil)
           (subst Process_loop.simps, simp)
    next
      case (Cons x xs)
      from Next_Cons [OF this] True Cons show ?thesis
        using "1.IH" [OF True refl, of "Next q" "fst (Next q)" "snd (Next q)" "fst (snd (Next q))" "snd (snd (Next q))"]
        by (subst Process_loop.simps) (auto split: prod.splits)
    qed
  qed
qed

lemma Process_loop_empties:
  "dequeue_order (fst (Process_loop callback element ok q s)) =
     (if ok then [] else dequeue_order q)"
proof (induction callback element ok q s rule: Process_loop.induct)
  case (1 callback element ok q s)
  show ?case
  proof (cases ok)
    case False
    then show ?thesis by (subst Process_loop.simps) simp
  next
    case True
    show ?thesis
    proof (cases "dequeue_order q")
      case Nil
      with True show ?thesis
        by (subst Process_loop.simps, simp add: Next_Nil)
           (subst Process_loop.simps, simp)
    next
      case (Cons x xs)
      from Next_Cons [OF this] True Cons show ?thesis
        using "1.IH" [OF True refl, of "Next q" "fst (Next q)" "snd (Next q)" "fst (snd (Next q))" "snd (snd (Next q))"]
        by (subst Process_loop.simps) (auto split: prod.splits)
    qed
  qed
qed

lemma Process_calls: "snd (Process callback q s) = fold callback (dequeue_order q) s"
proof (cases "dequeue_order q")
  case Nil
  then show ?thesis
    by (simp add: Process_def Next_Nil Process_loop_calls)
next
  case (Cons x xs)
  from Next_Cons [OF this] Cons show ?thesis
    by (auto simp: Process_def Process_loop_calls split: prod.splits)
qed

lemma Process_empties: "dequeue_order (fst (Process callback q s)) = []"
proof (cases "dequeue_order q")
  case Nil
  then show ?thesis
    by (simp add: Process_def Next_Nil Process_loop_empties)
next
  case (Cons x xs)
  from Next_Cons [OF this] Cons show ?thesis
    by (auto simp: Process_def Process_loop_empties split: prod.splits)
qed

lemma fold_record_call: "fold record_call xs calls = calls @ xs"
  by (induction xs arbitrary: calls) (simp_all add: record_call_def)

subsection \<open>Appends and the state of the channel\<close>

lemma priorities_distinct [simp]:
  "PriorityLow \<noteq> PriorityNormal" "PriorityLow \<noteq> PriorityHigh" "PriorityLow \<noteq> PriorityCritical"
  "PriorityNormal \<noteq> PriorityLow" "PriorityNormal \<noteq> PriorityHigh" "PriorityNormal \<noteq> PriorityCritical"
  "PriorityHigh \<noteq> PriorityLow" "PriorityHigh \<noteq> PriorityNormal" "PriorityHigh \<noteq> PriorityCritical"
  "PriorityCritical \<noteq> PriorityLow" "PriorityCritical \<noteq> PriorityNormal" "PriorityCritical \<noteq> PriorityHigh"
  by (simp_all add: PriorityLow_def PriorityNormal_def PriorityHigh_def PriorityCritical_def)

lemma append_q_frame:
  "low (append_q d p q) = (if p = PriorityLow then low q @ [d] else low q)"
  "norm (append_q d p q) = (if p = PriorityNormal then norm q @ [d] else norm q)"
  "high (append_q d p q) = (if p = PriorityHigh then high q @ [d] else high q)"
  "crit (append_q d p q) = (if p = PriorityCritical then crit q @ [d] else crit q)"
  "signal (append_q d p q) = try_send (signal q)"
  by (simp_all add: append_q_def Let_def)



lemma prepSignal_signal:
  "signal (prepSignal q) =
     (if 0 < chan_len (signal q) \<or> 0 < lenWithoutLock q
      then try_send (snd (try_recv (signal q))) else signal q)"
  by (auto simp: prepSignal_def Let_def try_recv_def lenWithoutLock_def split: prod.splits)

lemma prepSignal_pending:
  "signal_ok q \<Longrightarrow>
     chan_len (signal (prepSignal q)) =
       (if chan_len (signal q) = 1 \<or> 0 < lenWithoutLock q then 1 else 0)"
  by (auto simp: prepSignal_signal signal_ok_def try_send_def try_recv_def)

lemma prepSignal_cap [simp]: "chan_cap (signal (prepSignal q)) = chan_cap (signal q)"
  by (simp add: prepSignal_signal try_recv_def)

lemma prepSignal_ok: "signal_ok q \<Longrightarrow> signal_ok (prepSignal q)"
  by (auto simp: signal_ok_def prepSignal_signal try_send_def try_recv_def)

lemma drain_ok: "signal_ok q \<Longrightarrow> signal_ok (drain q)"
  by (simp add: signal_ok_def drain_eq)

lemma signal_ok_update [simp]:
  "signal_ok (q\<lparr>low := xs\<rparr>) = signal_ok q" "signal_ok (q\<lparr>norm := xs\<rparr>) = signal_ok q"
  "signal_ok (q\<lparr>high := xs\<rparr>) = signal_ok q" "signal_ok (q\<lparr>crit := xs\<rparr>) = signal_ok q"
  by (simp_all add: signal_ok_def)

lemma Next_ok: "signal_ok q \<Longrightarrow> signal_ok (snd (snd (Next q)))"
  by (simp add: Next_def Let_def prepSignal_ok drain_ok)

lemma append_q_ok: "signal_ok q \<Longrightarrow> signal_ok (append_q d p q)"
  by (simp add: signal_ok_def append_q_frame try_send_def)

lemma Process_loop_ok:
  "signal_ok q \<Longrightarrow> signal_ok (fst (Process_loop callback element ok q s))"
proof (induction callback element ok q s rule: Process_loop.induct)
  case (1 callback element ok q s)
  show ?case
  proof (cases ok)
    case False
    with 1 show ?thesis by (subst Process_loop.simps) simp
  next
    case True
    have "signal_ok (snd (snd (Next q)))"
      using "1.prems" by (rule Next_ok)
    with True show ?thesis
      using "1.IH" [OF True refl, of "Next q" "fst (Next q)" "snd (Next q)" "fst (snd (Next q))" "snd (snd (Next q))"]
      by (subst Process_loop.simps) (auto split: prod.splits)
  qed
qed

lemma Process_ok: "signal_ok q \<Longrightarrow> signal_ok (fst (Process callback q s))"
  using Process_loop_ok [OF Next_ok, of q callback "fst (Next q)" "fst (snd (Next q))" s]
  by (simp add: Process_def case_prod_beta)

lemma receive_ok: "signal_ok q \<Longrightarrow> signal_ok (q\<lparr>signal := snd (try_recv (signal q))\<rparr>)"
  by (simp add: signal_ok_def try_recv_def)

lemma exec_ok: "signal_ok q \<Longrightarrow> signal_ok (snd (exec x q))"
  by (cases x)
     (simp_all add: Append_def AppendPriority_def append_q_ok Signal_def Let_def prepSignal_ok
        Peek_def Empty_def Len_def Next_ok Process_ok receive_ok case_prod_beta)

lemma run_ok: "signal_ok q \<Longrightarrow> signal_ok (snd (run xs q))"
proof (induction xs arbitrary: q)
  case Nil
  then show ?case by simp
next
  case (Cons x xs)
  from Cons.IH [OF exec_ok [OF Cons.prems, of x]] show ?case
    by (simp add: case_prod_beta)
qed

lemma NewQueue_ok: "signal_ok NewQueue"
  by (simp add: signal_ok_def NewQueue_def make_chan_def)

lemma Peek_result:
  "fst (Peek q) = (case dequeue_order q of [] \<Rightarrow> None | x # xs \<Rightarrow> x)"
  "fst (snd (Peek q)) = (dequeue_order q \<noteq> [])"
  by (cases "crit q"; cases "high q"; cases "norm q"; cases "low q";
      simp add: Peek_def dequeue_order_def)+

subsection \<open>Lengths along a run\<close>

lemma lenWithoutLock_signal [simp]: "lenWithoutLock (q\<lparr>signal := c\<rparr>) = lenWithoutLock q"
  by (simp add: lenWithoutLock_def)

lemma lenWithoutLock_prepSignal [simp]: "lenWithoutLock (prepSignal q) = lenWithoutLock q"
  by (simp add: lenWithoutLock_dequeue_order)

lemma lenWithoutLock_NewQueue [simp]: "lenWithoutLock NewQueue = 0"
  by (simp add: lenWithoutLock_def NewQueue_def)

lemma lenWithoutLock_append_q:
  "lenWithoutLock (append_q data p q) =
     (if defined_priority p then lenWithoutLock q + 1 else lenWithoutLock q)"
  by (auto simp: lenWithoutLock_def append_q_frame defined_priority_def)

lemma Next_len_step:
  "lenWithoutLock (snd (snd (Next q))) + (if fst (snd (Next q)) then 1 else 0) =
     lenWithoutLock q"
proof (cases "dequeue_order q")
  case Nil
  then show ?thesis
    by (simp add: Next_Nil lenWithoutLock_dequeue_order)
next
  case (Cons x xs)
  from Next_Cons [OF this] Cons show ?thesis
    by (simp add: lenWithoutLock_dequeue_order)
qed

lemma defined_priority_Normal [simp]: "defined_priority PriorityNormal"
  by (simp add: defined_priority_def)

lemma exec_len_step:
  "lenWithoutLock (snd (exec x q)) + found_nexts (fst (exec x q)) =
     lenWithoutLock q + (if is_stored_append x then 1 else 0)"
proof (cases x)
  case OpNext
  with Next_len_step [of q] show ?thesis
    by (simp add: case_prod_beta)
next
  case OpProcess
  then show ?thesis
    by (simp add: case_prod_beta Process_calls fold_record_call
          lenWithoutLock_dequeue_order Process_empties)
qed (simp_all add: Append_def AppendPriority_def lenWithoutLock_append_q Signal_def Let_def
       Peek_def Empty_def Len_def case_prod_beta)

lemma run_len:
  "lenWithoutLock (snd (run xs q)) + sum_list (map found_nexts (fst (run xs q))) =
     lenWithoutLock q + length (filter is_stored_append xs)"
proof (induction xs arbitrary: q)
  case Nil
  show ?case by simp
next
  case (Cons x xs)
  from Cons.IH [of "snd (exec x q)"] exec_len_step [of x q] show ?case
    by (auto simp: case_prod_beta split: if_splits)
qed

section \<open>The claims\<close>


text \<open>
  C2, as stated, fails: a \<^verbatim>\<open>Next\<close> that removes the last item of a queue whose
  channel holds a token returns with the token still pending, and \<^verbatim>\<open>Signal\<close> on
  that empty queue leaves it pending too.
\<close>

theorem stale_token_counterexample:
  "fst (snd (Next (Append (Some ''x'') NewQueue))) \<and>
   fst (Len (snd (snd (Next (Append (Some ''x'') NewQueue))))) = 0 \<and>
   chan_len (signal (snd (snd (Next (Append (Some ''x'') NewQueue))))) = 1 \<and>
   fst (Len (snd (Signal (snd (snd (Next (Append (Some ''x'') NewQueue))))))) = 0 \<and>
   chan_len (signal (snd (Signal (snd (snd (Next (Append (Some ''x'') NewQueue))))))) = 1"
  by (simp add: Next_def Let_def Append_def append_q_frame NewQueue_def Len_def
        lenWithoutLock_def Signal_def prepSignal_signal make_chan_def try_send_def try_recv_def)

text \<open>
  C2, amended. \<^verbatim>\<open>prepSignal\<close> sends again the token it receives. So, on a channel of
  capacity 1: after a \<^verbatim>\<open>Next\<close> that found nothing no token is pending; after a
  \<^verbatim>\<open>Next\<close> that found an item, and after \<^verbatim>\<open>Signal\<close>, a token is pending exactly
  when one was pending before the call or the queue is not empty.
\<close>

theorem signal_after_Next_and_Signal:
  assumes "signal_ok q"
  shows "chan_len (signal (snd (snd (Next q)))) =
           (if fst (snd (Next q)) \<and>
               (chan_len (signal q) = 1 \<or> 0 < fst (Len (snd (snd (Next q))))) then 1 else 0) \<and>
         chan_len (signal (snd (Signal q))) =
           (if chan_len (signal q) = 1 \<or> 0 < fst (Len (snd (Signal q))) then 1 else 0) \<and>
         fst (Signal q) = signal (snd (Signal q))"
proof -
  have "chan_len (signal (snd (snd (Next q)))) =
           (if fst (snd (Next q)) \<and>
               (chan_len (signal q) = 1 \<or> 0 < lenWithoutLock (snd (snd (Next q)))) then 1 else 0)"
    using assms by (simp add: Next_def Let_def prepSignal_pending drain_eq)
  moreover have "chan_len (signal (snd (Signal q))) =
           (if chan_len (signal q) = 1 \<or> 0 < lenWithoutLock (snd (Signal q)) then 1 else 0)"
    using assms by (simp add: Signal_def Let_def prepSignal_pending)
  ultimately show ?thesis
    by (simp add: Len_def Signal_def Let_def)
qed

theorem signal_after_Next_and_Signal_witness:
  "signal_ok (Append (Some ''x'') NewQueue) \<and>
   fst (snd (Next (Append (Some ''x'') NewQueue))) \<and>
   fst (Len (snd (snd (Next (Append (Some ''x'') NewQueue))))) = 0 \<and>
   chan_len (signal (snd (snd (Next (Append (Some ''x'') NewQueue))))) = 1"
proof -
  have ok: "signal_ok (Append (Some ''x'') NewQueue)"
    by (simp add: Append_def append_q_ok NewQueue_ok)
  have pending: "chan_len (signal (Append (Some ''x'') NewQueue)) = 1"
    by (simp add: Append_def append_q_frame NewQueue_def make_chan_def try_send_def)
  have found: "fst (snd (Next (Append (Some ''x'') NewQueue)))"
    "fst (Len (snd (snd (Next (Append (Some ''x'') NewQueue))))) = 0"
    by (simp_all add: Next_def Let_def Append_def append_q_frame NewQueue_def Len_def
          lenWithoutLock_def)
  from signal_after_Next_and_Signal [OF ok] ok pending found show ?thesis
    by simp
qed

text \<open>
  C3. In every state reached from a new queue by any sequence of \<^verbatim>\<open>Append\<close>,
  \<^verbatim>\<open>AppendPriority\<close>, \<^verbatim>\<open>Next\<close>, \<^verbatim>\<open>Peek\<close>, \<^verbatim>\<open>Signal\<close>, \<^verbatim>\<open>Process\<close>,
  \<^verbatim>\<open>Empty\<close> and \<^verbatim>\<open>Len\<close> calls (and of receives by a consumer), the channel
  holds at most one token.
\<close>

theorem signal_at_most_one_token: "chan_len (signal (snd (run xs NewQueue))) \<le> 1"
  using run_ok [OF NewQueue_ok, of xs] by (simp add: signal_ok_def)

text \<open>
  C4. When all four sequences are empty, \<^verbatim>\<open>Next\<close> returns \<^verbatim>\<open>nil\<close> and found = false,
  leaves the four sequences as they are, and leaves no token in the channel.
\<close>

theorem Next_empty_drains:
  assumes "low q = []" and "norm q = []" and "high q = []" and "crit q = []"
  shows "fst (Next q) = None \<and> \<not> fst (snd (Next q)) \<and>
         low (snd (snd (Next q))) = low q \<and> norm (snd (snd (Next q))) = norm q \<and>
         high (snd (snd (Next q))) = high q \<and> crit (snd (snd (Next q))) = crit q \<and>
         chan_len (signal (snd (snd (Next q)))) = 0"
proof -
  from assms have "Next q = (None, False, drain q)"
    by (simp add: Next_def)
  then show ?thesis
    by (simp add: drain_eq)
qed

theorem Next_empty_drains_witness:
  "low (NewQueue\<lparr>signal := \<lparr>chan_cap = 1, chan_len = 1\<rparr>\<rparr> :: string queue) = [] \<and>
   norm (NewQueue\<lparr>signal := \<lparr>chan_cap = 1, chan_len = 1\<rparr>\<rparr> :: string queue) = [] \<and>
   high (NewQueue\<lparr>signal := \<lparr>chan_cap = 1, chan_len = 1\<rparr>\<rparr> :: string queue) = [] \<and>
   crit (NewQueue\<lparr>signal := \<lparr>chan_cap = 1, chan_len = 1\<rparr>\<rparr> :: string queue) = [] \<and>
   chan_len (signal (NewQueue\<lparr>signal := \<lparr>chan_cap = 1, chan_len = 1\<rparr>\<rparr> :: string queue)) = 1 \<and>
   fst (Next (NewQueue\<lparr>signal := \<lparr>chan_cap = 1, chan_len = 1\<rparr>\<rparr> :: string queue)) = None \<and>
   \<not> fst (snd (Next (NewQueue\<lparr>signal := \<lparr>chan_cap = 1, chan_len = 1\<rparr>\<rparr> :: string queue))) \<and>
   chan_len (signal (snd (snd (Next
     (NewQueue\<lparr>signal := \<lparr>chan_cap = 1, chan_len = 1\<rparr>\<rparr> :: string queue))))) = 0"
  using Next_empty_drains
    [of "NewQueue\<lparr>signal := \<lparr>chan_cap = 1, chan_len = 1\<rparr>\<rparr> :: string queue"]
  by (simp add: NewQueue_def)

text \<open>
  C5. On a new queue to which ("a", Low), ("b", Critical) and ("c", Normal) were appended
  in that order, \<^verbatim>\<open>Process\<close> calls the callback three times: with "b", then "c",
  then "a".
\<close>

theorem Process_low_critical_normal:
  "snd (Process record_call
         (AppendPriority (Some ''c'') PriorityNormal
           (AppendPriority (Some ''b'') PriorityCritical
             (AppendPriority (Some ''a'') PriorityLow NewQueue))) []) =
     [Some ''b'', Some ''c'', Some ''a'']"
  by (simp add: Process_calls record_call_def dequeue_order_def AppendPriority_def
        append_q_frame NewQueue_def)

text \<open>
  C6. In every state, \<^verbatim>\<open>Peek\<close> returns the item and the found flag that \<^verbatim>\<open>Next\<close>
  returns in that state, and the state after \<^verbatim>\<open>Peek\<close> is the state before it
  (the four sequences, the length and the channel).
\<close>

theorem Peek_is_Next_without_effect:
  "Peek q = (fst (Next q), fst (snd (Next q)), q)"
  by (simp add: Peek_def Next_def Let_def)

text \<open>
  C7, as stated, fails: an \<^verbatim>\<open>AppendPriority\<close> call with priority 4 on a new queue
  is an append call, and \<^verbatim>\<open>Len\<close> is 0 after it.
\<close>

theorem Len_counts_every_append_counterexample:
  "fst (Len (snd (run [OpAppendPriority (Some ''x'') 4] NewQueue))) \<noteq>
     length (filter is_append [OpAppendPriority (Some ''x'') 4]) -
     sum_list (map found_nexts (fst (run [OpAppendPriority (Some ''x'') 4] NewQueue))) \<and>
   fst (Len (AppendPriority (Some ''x'') 4 NewQueue)) \<noteq> fst (Len NewQueue) + 1"
  by (simp add: Len_def AppendPriority_def lenWithoutLock_append_q defined_priority_def
        PriorityLow_def PriorityNormal_def PriorityHigh_def PriorityCritical_def)

text \<open>
  C7, amended. After any run of operations on a new queue, \<^verbatim>\<open>Len\<close> is the number of
  append calls whose priority is one of the four constants, minus the number of
  \<^verbatim>\<open>Next\<close> calls that returned found = true. \<^verbatim>\<open>Append\<close> adds one to \<^verbatim>\<open>Len\<close>;
  \<^verbatim>\<open>AppendPriority\<close> adds one when the priority is one of the four constants and
  nothing otherwise; \<^verbatim>\<open>Next\<close> takes one off exactly when it returns found = true.
\<close>

theorem Len_is_stored_appends_minus_found:
  "int (fst (Len (snd (run xs NewQueue)))) =
     int (length (filter is_stored_append xs)) -
     int (sum_list (map found_nexts (fst (run xs NewQueue)))) \<and>
   fst (Len (Append data q)) = fst (Len q) + 1 \<and>
   fst (Len (AppendPriority data p q)) =
     (if defined_priority p then fst (Len q) + 1 else fst (Len q)) \<and>
   fst (Len (snd (snd (Next q)))) + (if fst (snd (Next q)) then 1 else 0) = fst (Len q)"
proof -
  from run_len [of xs "NewQueue :: 'a queue"]
  have "int (fst (Len (snd (run xs (NewQueue :: 'a queue))))) =
     int (length (filter is_stored_append xs)) -
     int (sum_list (map found_nexts (fst (run xs (NewQueue :: 'a queue)))))"
    by (simp add: Len_def)
  then show ?thesis
    using Next_len_step [of q]
    by (simp add: Len_def Append_def AppendPriority_def lenWithoutLock_append_q)
qed

text \<open>
  C8. In every state, \<^verbatim>\<open>Empty\<close> returns true exactly when \<^verbatim>\<open>Len\<close> returns 0,
  and \<^verbatim>\<open>Len\<close> returns the sum of the lengths of the four sequences.
\<close>

theorem Empty_iff_Len_zero:
  "fst (Empty q) = (fst (Len q) = 0) \<and>
   fst (Len q) = length (low q) + length (norm q) + length (high q) + length (crit q)"
  by (simp add: Empty_def Len_def lenWithoutLock_def)

text \<open>
  C9. \<^verbatim>\<open>AppendPriority\<close> with a priority that is none of the four constants stores
  nothing: the four sequences and \<^verbatim>\<open>Len\<close> are as before, every later \<^verbatim>\<open>Next\<close>
  and \<^verbatim>\<open>Peek\<close> returns what it would have returned without the call, and the
  call still tries to send a token, so that a channel of capacity 1 that held none
  holds one afterwards.
\<close>

theorem AppendPriority_undefined_priority:
  assumes "\<not> defined_priority p"
  shows "low (AppendPriority data p q) = low q \<and> norm (AppendPriority data p q) = norm q \<and>
         high (AppendPriority data p q) = high q \<and> crit (AppendPriority data p q) = crit q \<and>
         fst (Len (AppendPriority data p q)) = fst (Len q) \<and>
         fst (Next_repeat n (AppendPriority data p q)) = fst (Next_repeat n q) \<and>
         fst (Peek (AppendPriority data p q)) = fst (Peek q) \<and>
         fst (snd (Peek (AppendPriority data p q))) = fst (snd (Peek q)) \<and>
         signal (AppendPriority data p q) = try_send (signal q) \<and>
         (chan_len (signal q) = 0 \<and> chan_cap (signal q) = 1 \<longrightarrow>
            chan_len (signal (AppendPriority data p q)) = 1)"
proof -
  from assms have frame:
    "low (AppendPriority data p q) = low q" "norm (AppendPriority data p q) = norm q"
    "high (AppendPriority data p q) = high q" "crit (AppendPriority data p q) = crit q"
    by (simp_all add: AppendPriority_def append_q_frame defined_priority_def)
  then have same: "dequeue_order (AppendPriority data p q) = dequeue_order q"
    by (simp add: dequeue_order_def)
  have "signal (AppendPriority data p q) = try_send (signal q)"
    by (simp add: AppendPriority_def append_q_frame)
  with frame same show ?thesis
    by (simp add: Len_def lenWithoutLock_dequeue_order Next_repeat_results Peek_result
          try_send_def)
qed

theorem AppendPriority_undefined_priority_witness:
  "\<not> defined_priority 4 \<and>
   crit (AppendPriority (Some ''x'') 4 NewQueue) = [] \<and>
   fst (Len (AppendPriority (Some ''x'') 4 NewQueue)) = 0 \<and>
   fst (Next_repeat 1 (AppendPriority (Some ''x'') 4 NewQueue)) = [(None, False)] \<and>
   \<not> fst (snd (Peek (AppendPriority (Some ''x'') 4 NewQueue))) \<and>
   chan_len (signal (AppendPriority (Some ''x'') 4 NewQueue)) = 1"
proof -
  have undefined: "\<not> defined_priority 4"
    by (simp add: defined_priority_def PriorityLow_def PriorityNormal_def PriorityHigh_def
          PriorityCritical_def)
  have new: "dequeue_order (NewQueue :: string queue) = []"
    "chan_len (signal (NewQueue :: string queue)) = 0"
    "chan_cap (signal (NewQueue :: string queue)) = 1"
    "crit (NewQueue :: string queue) = []"
    by (simp_all add: NewQueue_def dequeue_order_def make_chan_def)
  from AppendPriority_undefined_priority [OF undefined, of "Some ''x''" NewQueue 1] undefined
  show ?thesis
    by (simp add: new Len_def lenWithoutLock_dequeue_order Next_repeat_results Peek_result
          try_send_def del: Next_repeat.simps)
qed


end
